theory Spec2Isabelle
  imports Complex_Main
begin

section \<open>JavaScript strings and numbers\<close>

text \<open>
  A JavaScript string is modelled by the bytes of its UTF-8 encoding, as a
  \<^typ>\<open>string\<close>. The characters the code matches on (digits, \<open>-\<close>, \<open>/\<close>, \<open>:\<close>, the field
  names) and the positions it computes with are ASCII, where bytes and UTF-16 code
  units agree; white space and line terminators beyond ASCII are recognised by their
  encodings.
\<close>

definition startsWith :: "string \<Rightarrow> string \<Rightarrow> bool" where
  "startsWith s p = (take (length p) s = p)"

definition substr :: "string \<Rightarrow> nat \<Rightarrow> nat \<Rightarrow> string" where
  "substr s start len = take len (drop start s)"

fun str_includes :: "string \<Rightarrow> string \<Rightarrow> bool" where
  "str_includes [] p = (p = [])"
| "str_includes (c # cs) p = (startsWith (c # cs) p \<or> str_includes cs p)"

definition isDigit :: "char \<Rightarrow> bool" where
  "isDigit c = (48 \<le> (of_char c :: nat) \<and> (of_char c :: nat) \<le> 57)"

definition digitValue :: "char \<Rightarrow> int" where
  "digitValue c = int (of_char c) - 48"

definition digitChar :: "nat \<Rightarrow> char" where
  "digitChar k = char_of (48 + k)"

text \<open>\<open>ToNumber\<close> on a string of decimal digits (the only strings it is applied to).\<close>

definition ToNumber :: "string \<Rightarrow> int" where
  "ToNumber s = foldl (\<lambda>a c. 10 * a + digitValue c) 0 s"

fun natToString :: "nat \<Rightarrow> string" where
  "natToString n = (if n < 10 then [digitChar n] else natToString (n div 10) @ [digitChar (n mod 10)])"

declare natToString.simps [simp del]

text \<open>\<open>Number.prototype.toString\<close> on an integer.\<close>

definition toString :: "int \<Rightarrow> string" where
  "toString i = (if i < 0 then CHR ''-'' # natToString (nat (- i)) else natToString (nat i))"

section \<open>Dates: the \<open>Date\<close> object and the dayjs wrapper\<close>

text \<open>
  A \<open>Date\<close> (and the dayjs instance wrapping it) is either the Invalid Date or a local
  calendar day, given by \<open>getFullYear()\<close>, \<open>getMonth()\<close> (0 = January, as in JavaScript)
  and \<open>getDate()\<close>. The time of day is left out: every birthday is parsed at local
  midnight, \<open>add(1, 'year')\<close> keeps the time of day, and \<open>isBefore(today, 'day')\<close> compares
  the end of the receiver's day with \<open>today\<close>, which depends on the two calendar days only.
  The local time zone is taken to have a fixed offset.

  \<open>Date\<close> is the ECMAScript built-in and dayjs an npm package; neither is part of the
  repository. The definitions of this section follow the ECMAScript specification and
  the dayjs 1.x sources on the calls that \<open>cardDavReader.js\<close> makes.
\<close>

datatype jsdate = InvalidDate | Date int int int

fun year :: "jsdate \<Rightarrow> int" where
  "year (Date y m d) = y"
| "year InvalidDate = 0"

definition isLeapYear :: "int \<Rightarrow> bool" where
  "isLeapYear y = ((y mod 4 = 0 \<and> y mod 100 \<noteq> 0) \<or> y mod 400 = 0)"

definition daysInMonth :: "int \<Rightarrow> int \<Rightarrow> int" where
  "daysInMonth y m =
     (if m = 1 then (if isLeapYear y then 29 else 28)
      else if m = 3 \<or> m = 5 \<or> m = 8 \<or> m = 10 then 30
      else 31)"

text \<open>
  The day overflow of ECMAScript's \<open>MakeDay\<close>: day \<open>d\<close> of month \<open>m\<close> (0 to 11) of year
  \<open>y\<close> is the day \<open>d - 1\<close> days after the first of that month, so a day past the end of
  the month rolls into the following months and a day below 1 into the preceding ones.
\<close>

function normalizeDate :: "int \<Rightarrow> int \<Rightarrow> int \<Rightarrow> jsdate" where
  "normalizeDate y m d =
     (if d < 1 then
        (let y' = (if m = 0 then y - 1 else y); m' = (if m = 0 then 11 else m - 1)
         in normalizeDate y' m' (d + daysInMonth y' m'))
      else if daysInMonth y m < d then
        normalizeDate (if m = 11 then y + 1 else y) (if m = 11 then 0 else m + 1)
          (d - daysInMonth y m)
      else Date y m d)"
  by pat_completeness auto
termination
  by (relation "measures [\<lambda>(y, m, d). nat (1 - d), \<lambda>(y, m, d). nat d]")
     (auto simp: daysInMonth_def Let_def)

declare normalizeDate.simps [simp del]

text \<open>
  \<open>new Date(year, monthIndex, day)\<close>: a year from 0 to 99 means 1900 + year, the month
  index overflows into the year, the day overflows as above.
\<close>

definition new_Date :: "int \<Rightarrow> int \<Rightarrow> int \<Rightarrow> jsdate" where
  "new_Date y m d =
     (let yr = (if 0 \<le> y \<and> y \<le> 99 then 1900 + y else y)
      in normalizeDate (yr + m div 12) (m mod 12) d)"

text \<open>
  dayjs parses a string with
  \<^verbatim>\<open>/^(\d{4})[-/]?(\d{1,2})?[-/]?(\d{0,2})[Tt\s]*(\d{1,2})?:?(\d{1,2})?:?(\d{1,2})?[.:]?(\d+)?$/\<close>.
  \<open>REGEX_PARSE\<close> models the match on strings without a time part, returning the groups
  1 to 3: four digits, an optional \<open>-\<close> or \<open>/\<close>, up to two digits, an optional \<open>-\<close> or
  \<open>/\<close>, up to two digits, end of string; an absent group 2 is returned as the empty
  string. The quantifiers are greedy, and when the greedy choices reach the end of the
  string they are the match. A string that goes on after the day (a time part, or text
  the native \<open>Date\<close> parser would be asked about) is outside the model and is answered
  with \<open>None\<close>; the extractor never produces one while the current year has four
  digits.
\<close>

definition skipSeparator :: "string \<Rightarrow> string" where
  "skipSeparator s = (case s of [] \<Rightarrow> [] | c # cs \<Rightarrow> if c = CHR ''-'' \<or> c = CHR ''/'' then cs else s)"

definition REGEX_PARSE :: "string \<Rightarrow> (string \<times> string \<times> string) option" where
  "REGEX_PARSE s =
     (let g1 = take 4 s; r1 = skipSeparator (drop 4 s);
          g2 = takeWhile isDigit (take 2 r1); r2 = skipSeparator (drop (length g2) r1);
          g3 = takeWhile isDigit (take 2 r2); r3 = drop (length g3) r2
      in if length g1 = 4 \<and> list_all isDigit g1 \<and> r3 = []
         then Some (g1, g2, g3) else None)"

text \<open>
  \<open>dayjs(string)\<close>: on a match \<open>new Date(d[1], d[2] - 1 || 0, d[3] || 1)\<close>. An absent
  group 2 makes \<open>d[2] - 1\<close> \<open>NaN\<close>, hence month index 0. The empty group 3 is falsy and
  gives day 1, while \<open>"00"\<close> is a non-empty string and gives day 0. Otherwise
  \<open>new Date(string)\<close>, which is the Invalid Date for the empty string.
\<close>

definition dayjs :: "string \<Rightarrow> jsdate" where
  "dayjs s =
     (case REGEX_PARSE s of
        None \<Rightarrow> InvalidDate
      | Some (g1, g2, g3) \<Rightarrow>
          new_Date (ToNumber g1) (if g2 = [] then 0 else ToNumber g2 - 1)
            (if g3 = [] then 1 else ToNumber g3))"

text \<open>
  \<open>a.isBefore(b, 'day')\<close> is \<open>a.endOf('day') < b\<close>: the calendar day of \<open>a\<close> is earlier
  than that of \<open>b\<close>. A comparison with the Invalid Date (\<open>NaN\<close>) is false.
\<close>

fun isBefore :: "jsdate \<Rightarrow> jsdate \<Rightarrow> bool" where
  "isBefore (Date y m d) (Date y' m' d') = (y < y' \<or> (y = y' \<and> (m < m' \<or> (m = m' \<and> d < d'))))"
| "isBefore _ _ = False"

text \<open>
  \<open>add(n, 'year')\<close> and \<open>add(n, 'month')\<close> go through \<open>$set\<close>: the date is set to the
  first of the month, the year or month is set (\<open>setFullYear\<close>, \<open>setMonth\<close>, the latter
  overflowing into the year), and the day becomes \<open>Math.min(this.$D, date.daysInMonth())\<close>.
  \<open>add(n, 'day')\<close> is \<open>setDate(getDate() + n)\<close>.
\<close>

fun add_year :: "int \<Rightarrow> jsdate \<Rightarrow> jsdate" where
  "add_year n (Date y m d) = Date (y + n) m (min d (daysInMonth (y + n) m))"
| "add_year n InvalidDate = InvalidDate"

fun add_month :: "int \<Rightarrow> jsdate \<Rightarrow> jsdate" where
  "add_month n (Date y m d) =
     (let y' = y + (m + n) div 12; m' = (m + n) mod 12
      in Date y' m' (min d (daysInMonth y' m')))"
| "add_month n InvalidDate = InvalidDate"

fun add_day :: "int \<Rightarrow> jsdate \<Rightarrow> jsdate" where
  "add_day n (Date y m d) = normalizeDate y m (d + n)"
| "add_day n InvalidDate = InvalidDate"

text \<open>The time value in milliseconds (ECMAScript's \<open>DayFromYear\<close> and month table).\<close>

definition DayFromYear :: "int \<Rightarrow> int" where
  "DayFromYear y = 365 * (y - 1970) + (y - 1969) div 4 - (y - 1901) div 100 + (y - 1601) div 400"

definition dayWithinYear :: "int \<Rightarrow> int \<Rightarrow> int" where
  "dayWithinYear y m = sum_list (map (daysInMonth y) [0..m - 1])"

fun valueOf :: "jsdate \<Rightarrow> int" where
  "valueOf (Date y m d) = (DayFromYear y + dayWithinYear y m + d - 1) * 86400000"
| "valueOf InvalidDate = 0"

text \<open>
  dayjs's \<open>monthDiff(a, b)\<close> (taken from moment.js):
  \<^verbatim>\<open>
  if (a.date() < b.date()) return -monthDiff(b, a)
  const wholeMonthDiff = ((b.year() - a.year()) * 12) + (b.month() - a.month())
  const anchor = a.clone().add(wholeMonthDiff, 'month')
  const c = b - anchor < 0
  const anchor2 = a.clone().add(wholeMonthDiff + (c ? -1 : 1), 'month')
  return +(-(wholeMonthDiff + ((b - anchor) / (c ? (anchor - anchor2) : (anchor2 - anchor)))) || 0)
  \<close>
  The swapped call never swaps back, so the recursion is written out. The quotient is an
  exact rational here. With an Invalid Date the expression is \<open>NaN || 0\<close>, that is 0.
\<close>

definition monthDiffBody :: "jsdate \<Rightarrow> jsdate \<Rightarrow> rat" where
  "monthDiffBody a b =
     (case (a, b) of
        (Date ay am ad, Date by bm bd) \<Rightarrow>
          (let wholeMonthDiff = (by - ay) * 12 + (bm - am);
               anchor = add_month wholeMonthDiff a;
               c = (valueOf b - valueOf anchor < 0);
               anchor2 = add_month (wholeMonthDiff + (if c then - 1 else 1)) a
           in - (of_int wholeMonthDiff +
                 of_int (valueOf b - valueOf anchor) /
                 of_int (if c then valueOf anchor - valueOf anchor2
                         else valueOf anchor2 - valueOf anchor)))
      | _ \<Rightarrow> 0)"

definition monthDiff :: "jsdate \<Rightarrow> jsdate \<Rightarrow> rat" where
  "monthDiff a b =
     (case (a, b) of
        (Date ay am ad, Date by bm bd) \<Rightarrow>
          (if ad < bd then - monthDiffBody b a else monthDiffBody a b)
      | _ \<Rightarrow> 0)"

text \<open>\<open>absFloor\<close>: \<open>n < 0 ? Math.ceil(n) || 0 : Math.floor(n)\<close>.\<close>

definition absFloor :: "rat \<Rightarrow> int" where
  "absFloor n = (if n < 0 then \<lceil>n\<rceil> else \<lfloor>n\<rfloor>)"

text \<open>\<open>a.diff(b, 'years')\<close> is \<open>absFloor(monthDiff(a, b) / 12)\<close>.\<close>

definition diff_years :: "jsdate \<Rightarrow> jsdate \<Rightarrow> int" where
  "diff_years a b = absFloor (monthDiff a b / 12)"

section \<open>cardDavReader.js: getNextBirthday\<close>

text \<open>
  The clock \<open>dayjs()\<close> is read into \<open>today\<close> and passed in as a parameter; the second
  reading, \<open>dayjs().year()\<close>, is taken to fall in the same year. The loop
  \<^verbatim>\<open>while (nextBirthday.isBefore(today, 'day')) nextBirthday = nextBirthday.add(1, 'year')\<close>
  returns the date it ends on together with the number of times its body ran.
\<close>

function advance :: "jsdate \<Rightarrow> jsdate \<Rightarrow> jsdate \<times> nat" where
  "advance today nextBirthday =
     (if isBefore nextBirthday today
      then (let (r, n) = advance today (add_year 1 nextBirthday) in (r, Suc n))
      else (nextBirthday, 0))"
  by pat_completeness auto
termination
proof (relation "measure (\<lambda>(today, nb). nat (year today + 1 - year nb))")
  show "wf (measure (\<lambda>(today, nb). nat (year today + 1 - year nb)))"
    by simp
next
  fix today nextBirthday
  assume "isBefore nextBirthday today"
  then show "((today, add_year 1 nextBirthday), (today, nextBirthday))
      \<in> measure (\<lambda>(today, nb). nat (year today + 1 - year nb))"
    by (cases nextBirthday; cases today) auto
qed

declare advance.simps [simp del]

definition birthdayDate :: "jsdate \<Rightarrow> string \<Rightarrow> jsdate" where
  "birthdayDate today bdayString =
     dayjs (if startsWith bdayString ''--''
            then toString (year today) @ substr bdayString 2 2 @ substr bdayString 4 2
            else bdayString)"

record occurrence =
  nextBirthday :: jsdate
  age :: int

definition getNextBirthday :: "jsdate \<Rightarrow> string \<Rightarrow> occurrence" where
  "getNextBirthday today bdayString =
     (let nextBirthday = fst (advance today (birthdayDate today bdayString))
      in \<lparr>nextBirthday = nextBirthday,
          age = diff_years nextBirthday (birthdayDate today bdayString)\<rparr>)"

section \<open>cardDavReader.js: fetchContacts\<close>

text \<open>
  \<^verbatim>\<open>/FN:(.+)/\<close>: the leftmost \<open>FN:\<close> followed by at least one character that is not a line
  terminator; group 1 runs to the end of that line. The line terminators are LF, CR,
  U+2028 and U+2029.
\<close>

definition lineTerminatorAt :: "string \<Rightarrow> bool" where
  "lineTerminatorAt s =
     (startsWith s [CHR 0x0A] \<or> startsWith s [CHR 0x0D]
      \<or> startsWith s [CHR 0xE2, CHR 0x80, CHR 0xA8]
      \<or> startsWith s [CHR 0xE2, CHR 0x80, CHR 0xA9])"

fun restOfLine :: "string \<Rightarrow> string" where
  "restOfLine [] = []"
| "restOfLine (c # cs) = (if lineTerminatorAt (c # cs) then [] else c # restOfLine cs)"

fun fnRegex :: "string \<Rightarrow> string option" where
  "fnRegex [] = None"
| "fnRegex (c # cs) =
     (let g = restOfLine (drop 3 (c # cs))
      in if startsWith (c # cs) ''FN:'' \<and> g \<noteq> [] then Some g else fnRegex cs)"

text \<open>
  \<open>String.prototype.trim\<close> removes white space and line terminators from both ends:
  TAB, LF, VT, FF, CR, SP, U+00A0, U+1680, U+2000 to U+200A, U+2028, U+2029, U+202F,
  U+205F, U+3000 and U+FEFF.
\<close>

definition whiteSpace :: "string list" where
  "whiteSpace =
     [[CHR 0x09], [CHR 0x0A], [CHR 0x0B], [CHR 0x0C], [CHR 0x0D], [CHR 0x20],
      [CHR 0xC2, CHR 0xA0],
      [CHR 0xE1, CHR 0x9A, CHR 0x80],
      [CHR 0xE2, CHR 0x80, CHR 0x80], [CHR 0xE2, CHR 0x80, CHR 0x81],
      [CHR 0xE2, CHR 0x80, CHR 0x82], [CHR 0xE2, CHR 0x80, CHR 0x83],
      [CHR 0xE2, CHR 0x80, CHR 0x84], [CHR 0xE2, CHR 0x80, CHR 0x85],
      [CHR 0xE2, CHR 0x80, CHR 0x86], [CHR 0xE2, CHR 0x80, CHR 0x87],
      [CHR 0xE2, CHR 0x80, CHR 0x88], [CHR 0xE2, CHR 0x80, CHR 0x89],
      [CHR 0xE2, CHR 0x80, CHR 0x8A],
      [CHR 0xE2, CHR 0x80, CHR 0xA8], [CHR 0xE2, CHR 0x80, CHR 0xA9],
      [CHR 0xE2, CHR 0x80, CHR 0xAF],
      [CHR 0xE2, CHR 0x81, CHR 0x9F],
      [CHR 0xE3, CHR 0x80, CHR 0x80],
      [CHR 0xEF, CHR 0xBB, CHR 0xBF]]"

text \<open>Removing, from the front of a string, every leading occurrence of the given words.\<close>

function stripLeading :: "string list \<Rightarrow> string \<Rightarrow> string" where
  "stripLeading ws s =
     (case find (\<lambda>w. w \<noteq> [] \<and> startsWith s w) ws of
        None \<Rightarrow> s
      | Some w \<Rightarrow> stripLeading ws (drop (length w) s))"
  by pat_completeness auto
termination
proof (relation "measure (\<lambda>(ws, s). length s)")
  show "wf (measure (\<lambda>(ws, s). length s))"
    by simp
next
  fix ws :: "string list" and s w :: string
  assume "find (\<lambda>w. w \<noteq> [] \<and> startsWith s w) ws = Some w"
  then have "w \<noteq> []" and "take (length w) s = w"
    by (auto simp: find_Some_iff startsWith_def)
  then have "s \<noteq> []"
    by auto
  with \<open>w \<noteq> []\<close> show "((ws, drop (length w) s), (ws, s)) \<in> measure (\<lambda>(ws, s). length s)"
    by simp
qed

declare stripLeading.simps [simp del]

definition trim :: "string \<Rightarrow> string" where
  "trim s = rev (stripLeading (map rev whiteSpace) (rev (stripLeading whiteSpace s)))"

text \<open>
  \<^verbatim>\<open>/BDAY(?:(?:;VALUE=date)?):(\d{8}|--\d{4}|\d{4}-\d{2}-\d{2})/\<close>: \<open>bdayValue\<close> is the
  alternation of group 1 at the start of a string, the alternatives tried in their
  order; \<open>bdayRegexAt\<close> is the whole pattern at the start of a string; \<open>bdayRegex\<close> is the
  leftmost match in a string.
\<close>

definition digits :: "string \<Rightarrow> nat \<Rightarrow> nat \<Rightarrow> bool" where
  "digits s start len = (length (substr s start len) = len \<and> list_all isDigit (substr s start len))"

definition bdayValue :: "string \<Rightarrow> string option" where
  "bdayValue s =
     (if digits s 0 8 then Some (take 8 s)
      else if startsWith s ''--'' \<and> digits s 2 4 then Some (take 6 s)
      else if digits s 0 4 \<and> substr s 4 1 = ''-'' \<and> digits s 5 2 \<and> substr s 7 1 = ''-''
              \<and> digits s 8 2 then Some (take 10 s)
      else None)"

definition bdayRegexAt :: "string \<Rightarrow> string option" where
  "bdayRegexAt s =
     (if startsWith s ''BDAY'' then
        (let r = drop 4 s; r' = (if startsWith r '';VALUE=date'' then drop 11 r else r)
         in if startsWith r' '':'' then bdayValue (drop 1 r') else None)
      else None)"

fun bdayRegex :: "string \<Rightarrow> string option" where
  "bdayRegex [] = None"
| "bdayRegex (c # cs) =
     (case bdayRegexAt (c # cs) of Some g \<Rightarrow> Some g | None \<Rightarrow> bdayRegex cs)"

text \<open>The birthday text built from the match (\<open>let birthday = ''; if (bdayMatch) ...\<close>).\<close>

definition birthdayText :: "string option \<Rightarrow> string" where
  "birthdayText bdayMatch =
     (case bdayMatch of
        None \<Rightarrow> []
      | Some bdayString \<Rightarrow>
          if str_includes bdayString ''-'' then bdayString
          else if startsWith bdayString ''--''
            then ''--'' @ substr bdayString 2 2 @ ''-'' @ substr bdayString 4 2
          else substr bdayString 0 4 @ ''-'' @ substr bdayString 4 2 @ ''-'' @ substr bdayString 6 2)"

record contact = occurrence +
  fullName :: string
  birthday :: string

definition toContact :: "jsdate \<Rightarrow> string \<Rightarrow> contact" where
  "toContact today vCardString =
     (let fullName = (case fnRegex vCardString of Some g \<Rightarrow> trim g | None \<Rightarrow> []);
          birthday = birthdayText (bdayRegex vCardString);
          occ = getNextBirthday today birthday
      in \<lparr>nextBirthday = nextBirthday occ, age = age occ,
          fullName = fullName, birthday = birthday\<rparr>)"

text \<open>
  The account loaded by \<open>client.createAccount\<close> is either a thrown error or the address
  books, each the list of the \<open>addressData\<close> texts of its objects. The \<open>try\<close>/\<open>catch\<close>
  around the whole body turns the error into the empty list.
\<close>

type_synonym addressBook = "string list"

definition contactsOf :: "jsdate \<Rightarrow> string \<Rightarrow> contact list" where
  "contactsOf today addressData =
     (if str_includes addressData ''BDAY'' then [toContact today addressData] else [])"

definition fetchContacts :: "jsdate \<Rightarrow> string + addressBook list \<Rightarrow> contact list" where
  "fetchContacts today account =
     (case account of
        Inl error \<Rightarrow> []
      | Inr addressBooks \<Rightarrow>
          concat (map (\<lambda>addressBook. concat (map (contactsOf today) addressBook)) addressBooks))"

section \<open>cardDavReader.js: getICSString\<close>

datatype jsnumber = Num int | NaN

fun getFullYear :: "jsdate \<Rightarrow> jsnumber" where
  "getFullYear (Date y m d) = Num y"
| "getFullYear InvalidDate = NaN"

fun getMonth :: "jsdate \<Rightarrow> jsnumber" where
  "getMonth (Date y m d) = Num m"
| "getMonth InvalidDate = NaN"

fun getDate :: "jsdate \<Rightarrow> jsnumber" where
  "getDate (Date y m d) = Num d"
| "getDate InvalidDate = NaN"

fun plus1 :: "jsnumber \<Rightarrow> jsnumber" where
  "plus1 (Num n) = Num (n + 1)"
| "plus1 NaN = NaN"

text \<open>An alarm trigger is a day with the hour and the minute set on it.\<close>

record alarm =
  action :: string
  trigger :: "jsdate \<times> int \<times> int"

record event =
  title :: string
  description :: string
  start :: "jsnumber list"
  end' :: "jsnumber list"
  startInputType :: string
  status :: string
  alarms :: "alarm list"
  calName :: string

definition gift :: string where
  "gift = [CHR 0xF0, CHR 0x9F, CHR 0x8E, CHR 0x81]"

definition toEvent :: "contact \<Rightarrow> event" where
  "toEvent contact =
     \<lparr>title = gift @ '' '' @ fullName contact @ '' (wird '' @ toString (age contact) @ '' Jahre)'',
      description = gift @ '' Geburtstag von '' @ fullName contact @ '' (wird ''
                    @ toString (age contact) @ '' Jahre)'',
      start = [getFullYear (nextBirthday contact), plus1 (getMonth (nextBirthday contact)),
               getDate (nextBirthday contact)],
      end' = [getFullYear (add_day 1 (nextBirthday contact)),
              plus1 (getMonth (add_day 1 (nextBirthday contact))),
              getDate (add_day 1 (nextBirthday contact))],
      startInputType = ''utc'',
      status = ''CONFIRMED'',
      alarms = [\<lparr>action = ''display'', trigger = (nextBirthday contact, 8, 0)\<rparr>],
      calName = ''Geburtstage''\<rparr>"

text \<open>
  \<open>ics.createEvents\<close> belongs to the ics package and is a parameter here: it either
  throws (\<open>Inl\<close>) or returns its result object (\<open>Inr\<close>).
\<close>

definition getICSString :: "(event list \<Rightarrow> string + 'r) \<Rightarrow> contact list \<Rightarrow> string + 'r" where
  "getICSString createEvents contacts = createEvents (map toEvent contacts)"

section \<open>server.js\<close>

text \<open>
  \<open>localCache\<close> holds at most one entry, under \<open>CACHE_KEY\<close>; its expiry after one day is
  not modelled. \<open>updateCache\<close> stores the result of \<open>getICSString\<close> in the \<open>then\<close>
  callback; when the callback throws, the \<open>catch\<close> only logs and the cache keeps its
  entry.
\<close>

definition updateCache ::
  "(event list \<Rightarrow> string + 'r) \<Rightarrow> jsdate \<Rightarrow> string + addressBook list \<Rightarrow> 'r option \<Rightarrow> 'r option" where
  "updateCache createEvents today account localCache =
     (case getICSString createEvents (fetchContacts today account) of
        Inr calendarString \<Rightarrow> Some calendarString
      | Inl error \<Rightarrow> localCache)"

datatype 'r response = Ok200 'r | NotFound404

text \<open>\<open>GET /calendar.ics\<close>; the cached result object is truthy whenever it is present.\<close>

definition getCalendar :: "'r option \<Rightarrow> 'r response" where
  "getCalendar localCache =
     (case localCache of Some icalString \<Rightarrow> Ok200 icalString | None \<Rightarrow> NotFound404)"

section \<open>Auxiliary notions for the properties\<close>

text \<open>A well-formed calendar day: month index 0 to 11, day within the month.\<close>

definition validDate :: "jsdate \<Rightarrow> bool" where
  "validDate x =
     (case x of
        Date y m d \<Rightarrow> 0 \<le> m \<and> m \<le> 11 \<and> 1 \<le> d \<and> d \<le> daysInMonth y m
      | InvalidDate \<Rightarrow> False)"

text \<open>
  A stand-in for \<open>ics.createEvents\<close> used to run \<open>updateCache\<close> on concrete inputs: it
  never throws and keeps the titles of the events it is given.
\<close>

definition titlesOnly :: "event list \<Rightarrow> string + string list" where
  "titlesOnly events = Inr (map title events)"

text \<open>A group of exactly \<open>n\<close> decimal digits (\<^verbatim>\<open>\d{n}\<close>).\<close>

definition digitGroup :: "nat \<Rightarrow> string \<Rightarrow> bool" where
  "digitGroup n s = (length s = n \<and> list_all isDigit s)"

section \<open>The calendar and the advancement loop\<close>

lemma daysInMonth_bounds: "28 \<le> daysInMonth y m" "daysInMonth y m \<le> 31"
  by (simp_all add: daysInMonth_def)

lemma normalizeDate_valid: "0 \<le> m \<Longrightarrow> m \<le> 11 \<Longrightarrow> validDate (normalizeDate y m d)"
proof (induction y m d rule: normalizeDate.induct)
  case (1 y m d)
  show ?case
  proof (cases "d < 1")
    case True
    then show ?thesis
      using 1 by (subst normalizeDate.simps) (simp add: Let_def)
  next
    case False
    show ?thesis
    proof (cases "daysInMonth y m < d")
      case True
      with False show ?thesis
        using 1 by (subst normalizeDate.simps) simp
    next
      case nover: False
      with False 1 show ?thesis
        by (subst normalizeDate.simps) (simp add: validDate_def)
    qed
  qed
qed

lemma normalizeDate_id: "1 \<le> d \<Longrightarrow> d \<le> daysInMonth y m \<Longrightarrow> normalizeDate y m d = Date y m d"
  by (subst normalizeDate.simps) simp

lemma new_Date_valid: "validDate (new_Date y m d)"
  by (simp add: new_Date_def Let_def normalizeDate_valid)

lemma add_year_valid: "validDate x \<Longrightarrow> validDate (add_year n x)"
proof (cases x)
  case InvalidDate
  then show "validDate x \<Longrightarrow> ?thesis" by (simp add: validDate_def)
next
  case (Date y m d)
  assume "validDate x"
  with Date daysInMonth_bounds(1)[of "y + n" m] show ?thesis
    by (simp add: validDate_def min_def)
qed

lemma advance_step:
  "isBefore nb today \<Longrightarrow>
   advance today nb = (fst (advance today (add_year 1 nb)), Suc (snd (advance today (add_year 1 nb))))"
  by (subst advance.simps) (simp add: case_prod_beta)

lemma advance_stop: "\<not> isBefore nb today \<Longrightarrow> advance today nb = (nb, 0)"
  by (subst advance.simps) simp

lemma advance_valid: "validDate nb \<Longrightarrow> validDate (fst (advance today nb))"
proof (induction today nb rule: advance.induct)
  case (1 today nb)
  show ?case
  proof (cases "isBefore nb today")
    case True
    with 1 show ?thesis
      by (simp add: advance_step add_year_valid)
  next
    case False
    with 1 show ?thesis by (simp add: advance_stop)
  qed
qed

lemma advance_not_before: "\<not> isBefore (fst (advance today nb)) today"
proof (induction today nb rule: advance.induct)
  case (1 today nb)
  show ?case
  proof (cases "isBefore nb today")
    case True
    with 1 show ?thesis
      by (simp add: advance_step)
  next
    case False
    then show ?thesis by (simp add: advance_stop)
  qed
qed

lemma advance_year:
  "\<exists>d'. fst (advance today (Date y m d)) = Date (y + int (snd (advance today (Date y m d)))) m d'"
proof (induction today "Date y m d" arbitrary: y d rule: advance.induct)
  case (1 today)
  show ?case
  proof (cases "isBefore (Date y m d) today")
    case True
    from 1[OF True] obtain d' where
      "fst (advance today (Date (y + 1) m (min d (daysInMonth (y + 1) m))))
        = Date (y + 1 + int (snd (advance today (Date (y + 1) m (min d (daysInMonth (y + 1) m)))))) m d'"
      by auto
    with True show ?thesis by (simp add: advance_step add.assoc)
  next
    case False
    then show ?thesis by (simp add: advance_stop)
  qed
qed

lemma leap_next: "isLeapYear y \<Longrightarrow> \<not> isLeapYear (y + 1)"
  unfolding isLeapYear_def by presburger

lemma advance_keeps_day:
  assumes "\<And>y'. d \<le> daysInMonth y' m"
  shows "fst (advance today (Date y m d)) = Date (y + int (snd (advance today (Date y m d)))) m d"
proof (induction today "Date y m d" arbitrary: y rule: advance.induct)
  case (1 today)
  have step: "add_year 1 (Date y m d) = Date (y + 1) m d"
    using assms[of "y + 1"] by simp
  show ?case
  proof (cases "isBefore (Date y m d) today")
    case True
    from 1[OF True step] True show ?thesis
      by (simp add: advance_step step add.assoc del: add_year.simps)
  next
    case False
    then show ?thesis by (simp add: advance_stop)
  qed
qed

section \<open>Strings: digits, numbers and the parser\<close>

lemma len2: "length xs = 2 \<Longrightarrow> \<exists>a b. xs = [a, b]"
  by (auto simp: eval_nat_numeral length_Suc_conv)

lemma len4: "length xs = 4 \<Longrightarrow> \<exists>a b c d. xs = [a, b, c, d]"
  by (auto simp: eval_nat_numeral length_Suc_conv)

lemma isDigit_not_separator: "isDigit c \<Longrightarrow> c \<noteq> CHR ''-'' \<and> c \<noteq> CHR ''/''"
  by (auto simp: isDigit_def)

lemma REGEX_PARSE_compact:
  assumes "length yy = 4" "list_all isDigit yy" "length mm = 2" "list_all isDigit mm"
    "length dd = 2" "list_all isDigit dd"
  shows "REGEX_PARSE (yy @ mm @ dd) = Some (yy, mm, dd)"
proof -
  from assms(1) obtain y1 y2 y3 y4 where yy: "yy = [y1, y2, y3, y4]" using len4 by blast
  from assms(3) obtain m1 m2 where mm: "mm = [m1, m2]" using len2 by blast
  from assms(5) obtain d1 d2 where dd: "dd = [d1, d2]" using len2 by blast
  from assms(2,4,6) show ?thesis
    unfolding yy mm dd
    by (simp add: REGEX_PARSE_def skipSeparator_def isDigit_not_separator)
qed

lemma REGEX_PARSE_iso:
  assumes "length yy = 4" "list_all isDigit yy" "length mm = 2" "list_all isDigit mm"
    "length dd = 2" "list_all isDigit dd"
  shows "REGEX_PARSE (yy @ ''-'' @ mm @ ''-'' @ dd) = Some (yy, mm, dd)"
proof -
  from assms(1) obtain y1 y2 y3 y4 where yy: "yy = [y1, y2, y3, y4]" using len4 by blast
  from assms(3) obtain m1 m2 where mm: "mm = [m1, m2]" using len2 by blast
  from assms(5) obtain d1 d2 where dd: "dd = [d1, d2]" using len2 by blast
  from assms(2,4,6) show ?thesis
    unfolding yy mm dd
    by (simp add: REGEX_PARSE_def skipSeparator_def isDigit_not_separator)
qed

lemma isDigit_digitChar: "k < 10 \<Longrightarrow> isDigit (digitChar k)"
  by (simp add: isDigit_def digitChar_def)

lemma digitValue_digitChar: "k < 10 \<Longrightarrow> digitValue (digitChar k) = int k"
  by (simp add: digitValue_def digitChar_def)

lemma ToNumber_snoc: "ToNumber (xs @ [c]) = 10 * ToNumber xs + digitValue c"
  by (simp add: ToNumber_def)

lemma ToNumber_natToString: "ToNumber (natToString n) = int n"
proof (induction n rule: natToString.induct)
  case (1 n)
  show ?case
  proof (cases "n < 10")
    case True
    then show ?thesis
      by (subst natToString.simps) (simp add: ToNumber_def digitValue_digitChar)
  next
    case False
    have "10 * int (n div 10) + int (n mod 10) = int n"
      by presburger
    with False 1 show ?thesis
      by (subst natToString.simps) (simp add: ToNumber_snoc digitValue_digitChar)
  qed
qed

lemma natToString_digits: "list_all isDigit (natToString n)"
proof (induction n rule: natToString.induct)
  case (1 n)
  show ?case
  proof (cases "n < 10")
    case True
    then show ?thesis
      by (subst natToString.simps) (simp add: isDigit_digitChar)
  next
    case False
    with 1 show ?thesis
      by (subst natToString.simps) (simp add: isDigit_digitChar)
  qed
qed

lemma natToString_length1: "n < 10 \<Longrightarrow> length (natToString n) = 1"
  by (subst natToString.simps) simp

lemma natToString_length_step: "10 \<le> n \<Longrightarrow> length (natToString n) = Suc (length (natToString (n div 10)))"
  by (subst natToString.simps) simp

lemma natToString_length4: "1000 \<le> n \<Longrightarrow> n \<le> 9999 \<Longrightarrow> length (natToString n) = 4"
proof -
  assume a: "1000 \<le> n" "n \<le> 9999"
  have 1: "10 \<le> n" "10 \<le> n div 10" "10 \<le> n div 10 div 10" "n div 10 div 10 div 10 < 10"
    using a by simp_all
  show ?thesis
    by (simp add: natToString_length_step[OF 1(1)] natToString_length_step[OF 1(2)]
        natToString_length_step[OF 1(3)] natToString_length1[OF 1(4)])
qed

lemma toString_year:
  assumes "1000 \<le> y" "y \<le> 9999"
  shows "length (toString y) = 4" "list_all isDigit (toString y)" "ToNumber (toString y) = y"
  using assms by (simp_all add: toString_def natToString_length4 natToString_digits ToNumber_natToString)

lemma dayjs_compact:
  assumes "length yy = 4" "list_all isDigit yy" "length mm = 2" "list_all isDigit mm"
    "length dd = 2" "list_all isDigit dd"
  shows "dayjs (yy @ mm @ dd) = new_Date (ToNumber yy) (ToNumber mm - 1) (ToNumber dd)"
proof -
  have "mm \<noteq> []" "dd \<noteq> []" using assms(3,5) by auto
  then show ?thesis
    by (simp only: dayjs_def REGEX_PARSE_compact[OF assms] option.case prod.case if_False)
qed

lemma dayjs_iso:
  assumes "length yy = 4" "list_all isDigit yy" "length mm = 2" "list_all isDigit mm"
    "length dd = 2" "list_all isDigit dd"
  shows "dayjs (yy @ ''-'' @ mm @ ''-'' @ dd) = new_Date (ToNumber yy) (ToNumber mm - 1) (ToNumber dd)"
proof -
  have "mm \<noteq> []" "dd \<noteq> []" using assms(3,5) by auto
  then show ?thesis
    by (simp only: dayjs_def REGEX_PARSE_iso[OF assms] option.case prod.case if_False)
qed

section \<open>The shapes matched by the birthday pattern\<close>

lemma take8_split: "take 8 v = take 4 v @ take 2 (drop 4 v) @ take 2 (drop 6 v)"
  using take_add[of 4 4 v] take_add[of 2 2 "drop 4 v"] by simp

lemma take6_split: "take 6 v = take 2 v @ take 2 (drop 2 v) @ take 2 (drop 4 v)"
  using take_add[of 2 4 v] take_add[of 2 2 "drop 2 v"] by simp

lemma take10_split:
  "take 10 v = take 4 v @ take 1 (drop 4 v) @ take 2 (drop 5 v) @ take 1 (drop 7 v) @ take 2 (drop 8 v)"
proof -
  have a: "take 10 v = take 4 v @ take 6 (drop 4 v)"
    using take_add[of 4 6 v] by simp
  have b: "take 6 (drop 4 v) = take 1 (drop 4 v) @ take 5 (drop 5 v)"
    using take_add[of 1 5 "drop 4 v"] by simp
  have c: "take 5 (drop 5 v) = take 2 (drop 5 v) @ take 3 (drop 7 v)"
    using take_add[of 2 3 "drop 5 v"] by simp
  have d: "take 3 (drop 7 v) = take 1 (drop 7 v) @ take 2 (drop 8 v)"
    using take_add[of 1 2 "drop 7 v"] by (simp add: numeral_3_eq_3)
  show ?thesis
    by (simp only: a b c d)
qed

lemma bdayValue_shapes:
  assumes "bdayValue v = Some s"
  shows "\<exists>yy mm dd. digitGroup 2 mm \<and> digitGroup 2 dd \<and>
           ((digitGroup 4 yy \<and> (s = yy @ mm @ dd \<or> s = yy @ ''-'' @ mm @ ''-'' @ dd))
            \<or> s = ''--'' @ mm @ dd)"
proof -
  consider (compact) "digits v 0 8" "s = take 8 v"
    | (yearless) "startsWith v ''--''" "digits v 2 4" "s = take 6 v"
    | (iso) "digits v 0 4" "substr v 4 1 = ''-''" "digits v 5 2" "substr v 7 1 = ''-''" "digits v 8 2" "s = take 10 v"
    using assms by (auto simp: bdayValue_def split: if_splits)
  then show ?thesis
  proof cases
    case compact
    have "length (take 8 v) = 8" "list_all isDigit (take 8 v)"
      using compact(1) by (simp_all add: digits_def substr_def)
    then have "digitGroup 4 (take 4 v)" "digitGroup 2 (take 2 (drop 4 v))" "digitGroup 2 (take 2 (drop 6 v))"
      unfolding take8_split by (auto simp: digitGroup_def)
    then show ?thesis
      using compact(2) take8_split by blast
  next
    case yearless
    have "take 2 v = ''--''" using yearless(1) by (simp add: startsWith_def numeral_2_eq_2)
    moreover have "length (take 4 (drop 2 v)) = 4" "list_all isDigit (take 4 (drop 2 v))"
      using yearless(2) by (simp_all add: digits_def substr_def)
    then have "digitGroup 2 (take 2 (drop 2 v))" "digitGroup 2 (take 2 (drop 4 v))"
      using take_add[of 2 2 "drop 2 v"] by (auto simp: digitGroup_def)
    ultimately show ?thesis
      using yearless(3) take6_split[of v] by auto
  next
    case iso
    have "digitGroup 4 (take 4 v)" "digitGroup 2 (take 2 (drop 5 v))" "digitGroup 2 (take 2 (drop 8 v))"
      using iso(1,3,5) by (simp_all add: digits_def substr_def digitGroup_def)
    moreover have "take 1 (drop 4 v) = ''-''" "take 1 (drop 7 v) = ''-''"
      using iso(2,4) by (simp_all add: substr_def)
    ultimately show ?thesis
      using iso(6) take10_split[of v] by auto
  qed
qed

lemma group_take2:
  assumes "digits s i 4"
  shows "digitGroup 2 (substr s i 2)" "digitGroup 2 (substr s (i + 2) 2)"
proof -
  have l: "length (take 4 (drop i s)) = 4" and d: "list_all isDigit (take 4 (drop i s))"
    using assms by (simp_all add: digits_def substr_def)
  have split: "take 4 (drop i s) = take 2 (drop i s) @ take 2 (drop (i + 2) s)"
    using take_add[of 2 2 "drop i s"] by (simp add: add.commute)
  from l have "4 \<le> length (drop i s)" by simp
  then have "length (take 2 (drop i s)) = 2" "length (take 2 (drop (i + 2) s)) = 2"
    by simp_all
  moreover from d have "list_all isDigit (take 2 (drop i s))" "list_all isDigit (take 2 (drop (i + 2) s))"
    unfolding split by simp_all
  ultimately show "digitGroup 2 (substr s i 2)" "digitGroup 2 (substr s (i + 2) 2)"
    by (simp_all add: digitGroup_def substr_def)
qed

lemma birthdayDate_yearless:
  assumes "startsWith s ''--''" "digits s 2 4" "1000 \<le> ty" "ty \<le> 9999"
  shows "birthdayDate (Date ty tm td) s
         = new_Date ty (ToNumber (substr s 2 2) - 1) (ToNumber (substr s 4 2))"
proof -
  have g: "digitGroup 2 (substr s 2 2)" "digitGroup 2 (substr s 4 2)"
    using group_take2[OF assms(2)] by simp_all
  have "dayjs (toString ty @ substr s 2 2 @ substr s 4 2)
        = new_Date (ToNumber (toString ty)) (ToNumber (substr s 2 2) - 1) (ToNumber (substr s 4 2))"
    using g toString_year[OF assms(3,4)] by (intro dayjs_compact) (simp_all add: digitGroup_def)
  then show ?thesis
    using assms(1) toString_year(3)[OF assms(3,4)] by (simp add: birthdayDate_def)
qed

lemma group_not_yearless: "digitGroup 4 yy \<Longrightarrow> \<not> startsWith (yy @ rest) ''--''"
  by (cases yy) (auto simp: digitGroup_def startsWith_def dest: isDigit_not_separator)

lemma birthdayDate_iso:
  assumes "digitGroup 4 yy" "digitGroup 2 mm" "digitGroup 2 dd"
  shows "birthdayDate today (yy @ ''-'' @ mm @ ''-'' @ dd)
         = new_Date (ToNumber yy) (ToNumber mm - 1) (ToNumber dd)"
proof -
  have "dayjs (yy @ ''-'' @ mm @ ''-'' @ dd) = new_Date (ToNumber yy) (ToNumber mm - 1) (ToNumber dd)"
    using assms by (intro dayjs_iso) (simp_all add: digitGroup_def)
  then show ?thesis
    using group_not_yearless[OF assms(1)] by (simp add: birthdayDate_def)
qed

lemma digits_no_dash: "list_all isDigit s \<Longrightarrow> \<not> str_includes s ''-''"
  by (induction s) (auto simp: startsWith_def dest: isDigit_not_separator)

lemma str_includes_dash: "str_includes (xs @ CHR ''-'' # ys) ''-''"
  by (induction xs) (auto simp: startsWith_def)

lemma birthdayText_compact:
  assumes "digitGroup 4 yy" "digitGroup 2 mm" "digitGroup 2 dd"
  shows "birthdayText (Some (yy @ mm @ dd)) = yy @ ''-'' @ mm @ ''-'' @ dd"
proof -
  have "\<not> str_includes (yy @ mm @ dd) ''-''"
    using assms by (intro digits_no_dash) (simp add: digitGroup_def)
  moreover have "\<not> startsWith (yy @ mm @ dd) ''--''"
    using group_not_yearless[OF assms(1)] by simp
  ultimately show ?thesis
    using assms by (simp add: birthdayText_def substr_def digitGroup_def)
qed

lemma birthdayText_dash: "birthdayText (Some (xs @ CHR ''-'' # ys)) = xs @ CHR ''-'' # ys"
  by (simp add: birthdayText_def str_includes_dash)

lemma birthdayDate_matched:
  assumes "bdayValue v = Some s" "1000 \<le> ty" "ty \<le> 9999"
  shows "\<exists>y m d. birthdayDate (Date ty tm td) (birthdayText (Some s)) = new_Date y m d"
proof -
  from bdayValue_shapes[OF assms(1)] obtain yy mm dd where
    g: "digitGroup 2 mm" "digitGroup 2 dd" and
    s: "(digitGroup 4 yy \<and> (s = yy @ mm @ dd \<or> s = yy @ ''-'' @ mm @ ''-'' @ dd)) \<or> s = ''--'' @ mm @ dd"
    by blast
  from s consider (compact) "digitGroup 4 yy" "s = yy @ mm @ dd"
    | (iso) "digitGroup 4 yy" "s = yy @ ''-'' @ mm @ ''-'' @ dd"
    | (yearless) "s = ''--'' @ mm @ dd"
    by blast
  then show ?thesis
  proof cases
    case compact
    then show ?thesis
      using birthdayText_compact[OF compact(1) g] birthdayDate_iso[OF compact(1) g] by auto
  next
    case iso
    have "birthdayText (Some s) = s"
      unfolding iso(2) using birthdayText_dash[of yy "mm @ ''-'' @ dd"] by simp
    then show ?thesis
      using birthdayDate_iso[OF iso(1) g] iso(2) by auto
  next
    case yearless
    have t: "birthdayText (Some s) = s"
      unfolding yearless using birthdayText_dash[of "[]" "''-'' @ mm @ dd"] by simp
    have "startsWith s ''--''" "digits s 2 4"
      using g by (simp_all add: yearless startsWith_def digits_def substr_def digitGroup_def)
    from birthdayDate_yearless[OF this assms(2,3)] t show ?thesis
      by auto
  qed
qed

lemma bdayRegex_value: "bdayRegex r = Some s \<Longrightarrow> \<exists>v. bdayValue v = Some s"
proof (induction r)
  case Nil
  then show ?case by simp
next
  case (Cons c cs)
  show ?case
  proof (cases "bdayRegexAt (c # cs)")
    case None
    with Cons show ?thesis by simp
  next
    case (Some g)
    with Cons.prems have "bdayRegexAt (c # cs) = Some s" by simp
    then show ?thesis
      by (auto simp: bdayRegexAt_def Let_def split: if_splits)
  qed
qed

lemma advance_invalid: "advance today InvalidDate = (InvalidDate, 0)"
  by (simp add: advance_stop)

lemma normalizeDate_same_year:
  assumes "0 \<le> m" "m \<le> 11" "1 \<le> d" "d \<le> 31"
  shows "year (normalizeDate y m d) = y"
proof (cases "d \<le> daysInMonth y m")
  case True
  with assms show ?thesis by (simp add: normalizeDate_id)
next
  case False
  then have m: "m \<noteq> 11" using assms(4) by (auto simp: daysInMonth_def split: if_splits)
  have "1 \<le> d - daysInMonth y m" using False by simp
  moreover have "d - daysInMonth y m \<le> daysInMonth y (m + 1)"
    using assms(4) daysInMonth_bounds(1)[of y m] daysInMonth_bounds(1)[of y "m + 1"] by linarith
  ultimately have "normalizeDate y (m + 1) (d - daysInMonth y m) = Date y (m + 1) (d - daysInMonth y m)"
    by (rule normalizeDate_id)
  with False m assms(3) show ?thesis
    by (subst normalizeDate.simps) simp
qed

lemma advance_same_year: "snd (advance (Date ty tm td) (Date ty m d)) \<le> 1"
proof (cases "isBefore (Date ty m d) (Date ty tm td)")
  case True
  have "\<not> isBefore (add_year 1 (Date ty m d)) (Date ty tm td)" by simp
  from advance_stop[OF this] True show ?thesis
    by (simp add: advance_step)
next
  case False
  then show ?thesis by (simp add: advance_stop)
qed

lemma advance_fixed_day:
  assumes "\<And>y'. d \<le> daysInMonth y' m"
  shows "y \<le> ty \<Longrightarrow> fst (advance (Date ty tm td) (Date y m d))
         = Date (if isBefore (Date ty m d) (Date ty tm td) then ty + 1 else ty) m d"
proof (induction "Date ty tm td" "Date y m d" arbitrary: y rule: advance.induct)
  case 1
  have step: "add_year 1 (Date y m d) = Date (y + 1) m d"
    using assms[of "y + 1"] by simp
  show ?case
  proof (cases "isBefore (Date y m d) (Date ty tm td)")
    case True
    show ?thesis
    proof (cases "y < ty")
      case lt: True
      then have "y + 1 \<le> ty" by simp
      from 1(1)[OF True step this] True show ?thesis
        by (simp add: advance_step step del: add_year.simps isBefore.simps)
    next
      case False
      with 1(2) have "y = ty" by simp
      with True assms[of "ty + 1"] show ?thesis
        by (simp add: advance_step advance_stop)
    qed
  next
    case False
    with 1(2) have "y = ty" by auto
    with False show ?thesis by (simp add: advance_stop)
  qed
qed

lemma birthdayDate_valid: "birthdayDate today s = InvalidDate \<or> validDate (birthdayDate today s)"
  by (auto simp: birthdayDate_def dayjs_def new_Date_valid split: option.splits)

lemma day_fits_every_year:
  assumes "validDate (Date y m d)" "\<not> (m = 1 \<and> d = 29)"
  shows "d \<le> daysInMonth y' m"
  using assms by (auto simp: validDate_def daysInMonth_def split: if_splits)

lemma getNextBirthday_next:
  "nextBirthday (getNextBirthday today s) = fst (advance today (birthdayDate today s))"
  by (simp add: getNextBirthday_def Let_def)

section \<open>The extractor\<close>

lemma new_Date_in_year:
  assumes "1000 \<le> ty" "1 \<le> M" "M \<le> 12" "1 \<le> D" "D \<le> 31"
  shows "\<exists>m d. new_Date ty (M - 1) D = Date ty m d"
proof -
  have n: "new_Date ty (M - 1) D = normalizeDate ty (M - 1) D"
    using assms(1,2,3) by (simp add: new_Date_def)
  have "validDate (normalizeDate ty (M - 1) D)"
    using assms(2,3) by (intro normalizeDate_valid) simp_all
  moreover have "year (normalizeDate ty (M - 1) D) = ty"
    using assms(2-5) by (intro normalizeDate_same_year) simp_all
  ultimately show ?thesis
    unfolding n by (cases "normalizeDate ty (M - 1) D") (simp_all add: validDate_def)
qed

lemma toContact_fields:
  "nextBirthday (toContact today v)
     = fst (advance today (birthdayDate today (birthdayText (bdayRegex v))))"
  "birthday (toContact today v) = birthdayText (bdayRegex v)"
  by (simp_all add: toContact_def Let_def getNextBirthday_next)

lemma birthdayDate_empty: "birthdayDate today [] = InvalidDate"
  by (simp add: birthdayDate_def startsWith_def dayjs_def REGEX_PARSE_def)

lemma fetchContacts_books:
  "fetchContacts today (Inr (bs1 @ bs2)) = fetchContacts today (Inr bs1) @ fetchContacts today (Inr bs2)"
  by (simp add: fetchContacts_def)

lemma fetchContacts_book:
  "fetchContacts today (Inr [xs @ ys]) = fetchContacts today (Inr [xs]) @ fetchContacts today (Inr [ys])"
  by (simp add: fetchContacts_def)

lemma fetchContacts_Cons:
  "fetchContacts today (Inr (b # bs)) = fetchContacts today (Inr [b]) @ fetchContacts today (Inr bs)"
  by (simp add: fetchContacts_def)

lemma fetchContacts_record:
  "fetchContacts today (Inr [r # ys]) = contactsOf today r @ fetchContacts today (Inr [ys])"
  by (simp add: fetchContacts_def)

lemma fetchContacts_split:
  "fetchContacts today (Inr (bs1 @ (xs @ r # ys) # bs2))
   = fetchContacts today (Inr (bs1 @ [xs])) @ contactsOf today r @ fetchContacts today (Inr (ys # bs2))"
  by (simp add: fetchContacts_def)

section \<open>The age\<close>

text \<open>
  Away from February 29 the day of the month is never clamped, the occurrence is the
  birth date moved by whole years, and \<open>diff\<close> counts exactly these years.
\<close>

lemma add_month_back:
  assumes "validDate (Date y m d)" "k = - (12 * int n)"
  shows "add_month k (Date (y + int n) m d) = Date y m d"
proof -
  from assms have m: "0 \<le> m" "m \<le> 11" and d: "d \<le> daysInMonth y m"
    by (simp_all add: validDate_def)
  have "(m + 12 * (- int n)) div 12 = - int n + m div 12"
    by (rule div_mult_self2) simp
  moreover have "(m + 12 * (- int n)) mod 12 = m mod 12"
    by (rule mod_mult_self2)
  moreover have "m div 12 = 0" "m mod 12 = m"
    using m by simp_all
  ultimately have "(m + k) div 12 = - int n" "(m + k) mod 12 = m"
    by (simp_all add: assms(2))
  with d show ?thesis
    by (simp add: Let_def)
qed

lemma monthDiff_fixed_day:
  assumes "validDate (Date y m d)"
  shows "monthDiff (Date (y + int n) m d) (Date y m d) = of_int (12 * int n)"
proof -
  have w: "(y - (y + int n)) * 12 + 0 = - (12 * int n)"
    by simp
  have anchor: "add_month ((y - (y + int n)) * 12 + 0) (Date (y + int n) m d) = Date y m d"
    using assms w by (rule add_month_back)
  have "monthDiffBody (Date (y + int n) m d) (Date y m d) = of_int (12 * int n)"
    unfolding monthDiffBody_def
    by (simp only: prod.case jsdate.case Let_def anchor diff_self less_irrefl if_False)
       (simp del: add_month.simps valueOf.simps)
  then show ?thesis
    by (simp add: monthDiff_def)
qed

lemma diff_years_fixed_day:
  assumes "validDate (Date y m d)"
  shows "diff_years (Date (y + int n) m d) (Date y m d) = int n"
  by (simp add: diff_years_def absFloor_def monthDiff_fixed_day[OF assms])

lemma age_is_year_difference:
  assumes "birthdayDate today bdayString = Date y m d" "\<not> (m = 1 \<and> d = 29)"
  shows "age (getNextBirthday today bdayString)
         = year (nextBirthday (getNextBirthday today bdayString)) - y"
proof -
  have v: "validDate (Date y m d)"
    using birthdayDate_valid[of today bdayString] assms(1) by simp
  then have fits: "\<And>y'. d \<le> daysInMonth y' m"
    using assms(2) by (rule day_fits_every_year)
  define n where "n = snd (advance today (Date y m d))"
  have r: "fst (advance today (Date y m d)) = Date (y + int n) m d"
    unfolding n_def by (rule advance_keeps_day[OF fits])
  show ?thesis
    by (simp add: getNextBirthday_def Let_def assms(1) r diff_years_fixed_day[OF v])
qed

section \<open>The claims\<close>

text \<open>
  C1, as stated, fails. The claim: for every birthday and every today the returned date
  is the earliest date on or after today that matches the month and day of the birthday.
  For \<open>2000-02-29\<close> and today = 2024-02-10 the result is 2024-02-28, although
  2024-02-29 exists and is not before today. For \<open>2030-06-15\<close> and today = 2024-06-01
  the result is 2030-06-15, although 2024-06-15 is not before today and is earlier.
\<close>

theorem C1_counterexample:
  "nextBirthday (getNextBirthday (Date 2024 1 10) ''2000-02-29'') = Date 2024 1 28
   \<and> validDate (Date 2024 1 29) \<and> \<not> isBefore (Date 2024 1 29) (Date 2024 1 10)
   \<and> nextBirthday (getNextBirthday (Date 2024 5 1) ''2030-06-15'') = Date 2030 5 15
   \<and> validDate (Date 2024 5 15) \<and> \<not> isBefore (Date 2024 5 15) (Date 2024 5 1)
   \<and> isBefore (Date 2024 5 15) (Date 2030 5 15)"
  by code_simp

text \<open>
  C1 (amended). For every birthday whose parsed date is not February 29 and lies in a
  year not after the year of today, the returned date has the month and day of the
  birthday, is on or after today (comparing days), and no date with that month and day
  that is on or after today is earlier.
\<close>

theorem C1_next_occurrence:
  assumes "today = Date ty tm td"
    and "birthdayDate today bdayString = Date y m d"
    and "y \<le> ty"
    and "\<not> (m = 1 \<and> d = 29)"
  shows "\<exists>r. nextBirthday (getNextBirthday today bdayString) = Date r m d
           \<and> \<not> isBefore (Date r m d) today
           \<and> (\<forall>y'. \<not> isBefore (Date y' m d) today \<longrightarrow> \<not> isBefore (Date y' m d) (Date r m d))"
proof -
  have "validDate (Date y m d)"
    using birthdayDate_valid[of today bdayString] assms(2) by simp
  then have fits: "\<And>y'. d \<le> daysInMonth y' m"
    using assms(4) by (rule day_fits_every_year)
  define r where "r = (if isBefore (Date ty m d) (Date ty tm td) then ty + 1 else ty)"
  have res: "nextBirthday (getNextBirthday today bdayString) = Date r m d"
    unfolding getNextBirthday_next assms(2)
    using advance_fixed_day[OF fits assms(3), of tm td]
    by (simp only: assms(1) r_def)
  have after: "\<not> isBefore (Date r m d) today"
    by (auto simp: r_def assms(1))
  have earliest: "\<not> isBefore (Date y' m d) (Date r m d)" if "\<not> isBefore (Date y' m d) today" for y'
    using that by (auto simp: r_def assms(1) split: if_splits)
  from res after earliest show ?thesis by blast
qed

text \<open>C1 (amended) at the birthday \<open>1990-01-01\<close> with today = 2024-06-01.\<close>

theorem C1_next_occurrence_witness:
  "birthdayDate (Date 2024 5 1) ''1990-01-01'' = Date 1990 0 1
   \<and> nextBirthday (getNextBirthday (Date 2024 5 1) ''1990-01-01'') = Date 2025 0 1"
proof -
  have b: "birthdayDate (Date 2024 5 1) ''1990-01-01'' = Date 1990 0 1"
    by code_simp
  have h: "(1990::int) \<le> 2024" "\<not> ((0::int) = 1 \<and> (1::int) = 29)"
    by simp_all
  from C1_next_occurrence[OF refl b h] obtain r where
    res: "nextBirthday (getNextBirthday (Date 2024 5 1) ''1990-01-01'') = Date r 0 1"
    and after: "\<not> isBefore (Date r 0 1) (Date 2024 5 1)"
    and earliest: "\<forall>y'. \<not> isBefore (Date y' 0 1) (Date 2024 5 1)
                    \<longrightarrow> \<not> isBefore (Date y' 0 1) (Date r 0 1)"
    by blast
  from earliest have "\<not> isBefore (Date 2025 0 1) (Date r 0 1)"
    by simp
  with after have "r = 2025"
    by simp
  with res b show ?thesis
    by simp
qed

text \<open>
  C2, as stated, fails. The claim: a refresh whose fetch fails leaves the cached feed
  unchanged. With the stand-in serializer, a first refresh caches the feed of one
  contact; a second refresh whose fetch throws replaces it by the feed of no contact,
  and the feed route then answers 200 with that empty feed.
\<close>

theorem C2_counterexample:
  "updateCache titlesOnly (Date 2024 5 1) (Inr [[''FN:Ann'' @ [CHR 0x0A] @ ''BDAY:1990-06-15'']]) None
     = Some [gift @ '' Ann (wird 34 Jahre)'']
   \<and> updateCache titlesOnly (Date 2024 5 1) (Inl ''ECONNREFUSED'') (Some [gift @ '' Ann (wird 34 Jahre)''])
     = Some []
   \<and> getCalendar (updateCache titlesOnly (Date 2024 5 1) (Inl ''ECONNREFUSED'')
        (Some [gift @ '' Ann (wird 34 Jahre)''])) = Ok200 []"
  by code_simp

text \<open>
  C2 (amended). When the fetch fails, \<open>fetchContacts\<close> returns the empty list and the
  refresh stores the feed synthesized from the empty list in the cache, replacing the
  entry that was there. The cache keeps its entry only when the synthesis itself throws.
\<close>

theorem C2_failed_fetch:
  "updateCache createEvents today (Inl error) localCache
   = (case createEvents [] of Inr calendarString \<Rightarrow> Some calendarString | Inl e \<Rightarrow> localCache)"
  by (simp add: updateCache_def getICSString_def fetchContacts_def)

text \<open>
  C3, as stated, fails. The claim: the candidate is constructed in the year of today and
  the loop runs at most twice. For \<open>1990-06-15\<close> and today = 2024-06-01 the candidate
  is the birth date 1990-06-15 and the loop body runs 34 times.
\<close>

theorem C3_counterexample:
  "birthdayDate (Date 2024 5 1) ''1990-06-15'' = Date 1990 5 15
   \<and> snd (advance (Date 2024 5 1) (birthdayDate (Date 2024 5 1) ''1990-06-15'')) = 34"
  by code_simp

text \<open>
  C3 (amended). For a year-less birthday \<open>--MMDD\<close> with month 1 to 12 and day 1 to 31
  (and a four-digit current year) the candidate is constructed in the year of today and
  the loop body runs at most once. For a birthday with a birth year the candidate is the
  parsed birth date itself, and the loop body runs once for every year between the birth
  year and the year of the occurrence.
\<close>

theorem C3_iterations:
  assumes "today = Date ty tm td"
  shows "(startsWith s ''--'' \<and> 1000 \<le> ty \<and> ty \<le> 9999 \<and> digits s 2 4
            \<and> 1 \<le> ToNumber (substr s 2 2) \<and> ToNumber (substr s 2 2) \<le> 12
            \<and> 1 \<le> ToNumber (substr s 4 2) \<and> ToNumber (substr s 4 2) \<le> 31
          \<longrightarrow> year (birthdayDate today s) = ty
              \<and> snd (advance today (birthdayDate today s)) \<le> 1)
       \<and> (\<not> startsWith s ''--'' \<and> dayjs s = Date y m d
          \<longrightarrow> birthdayDate today s = Date y m d
              \<and> year (fst (advance today (Date y m d)))
                  = y + int (snd (advance today (Date y m d))))"
proof (intro conjI impI)
  assume a: "startsWith s ''--'' \<and> 1000 \<le> ty \<and> ty \<le> 9999 \<and> digits s 2 4
            \<and> 1 \<le> ToNumber (substr s 2 2) \<and> ToNumber (substr s 2 2) \<le> 12
            \<and> 1 \<le> ToNumber (substr s 4 2) \<and> ToNumber (substr s 4 2) \<le> 31"
  then have "birthdayDate today s
      = new_Date ty (ToNumber (substr s 2 2) - 1) (ToNumber (substr s 4 2))"
    unfolding assms by (intro birthdayDate_yearless) simp_all
  moreover obtain m' d' where
    "new_Date ty (ToNumber (substr s 2 2) - 1) (ToNumber (substr s 4 2)) = Date ty m' d'"
    using new_Date_in_year[of ty "ToNumber (substr s 2 2)" "ToNumber (substr s 4 2)"] a by blast
  ultimately have b: "birthdayDate today s = Date ty m' d'" by simp
  show "year (birthdayDate today s) = ty"
    by (simp add: b)
  show "snd (advance today (birthdayDate today s)) \<le> 1"
    unfolding b unfolding assms by (rule advance_same_year)
next
  assume a: "\<not> startsWith s ''--'' \<and> dayjs s = Date y m d"
  then show "birthdayDate today s = Date y m d"
    by (simp add: birthdayDate_def)
  from advance_year[of today y m d]
  show "year (fst (advance today (Date y m d))) = y + int (snd (advance today (Date y m d)))"
    by auto
qed

text \<open>C3 (amended) at \<open>--0615\<close> and at \<open>1990-06-15\<close>, with today = 2024-06-01.\<close>

theorem C3_iterations_witness:
  "year (birthdayDate (Date 2024 5 1) ''--0615'') = 2024
   \<and> snd (advance (Date 2024 5 1) (birthdayDate (Date 2024 5 1) ''--0615'')) \<le> 1
   \<and> birthdayDate (Date 2024 5 1) ''1990-06-15'' = Date 1990 5 15
   \<and> year (fst (advance (Date 2024 5 1) (Date 1990 5 15)))
       = 1990 + int (snd (advance (Date 2024 5 1) (Date 1990 5 15)))"
proof -
  have a: "startsWith ''--0615'' ''--'' \<and> (1000::int) \<le> 2024 \<and> (2024::int) \<le> 9999 \<and> digits ''--0615'' 2 4
            \<and> 1 \<le> ToNumber (substr ''--0615'' 2 2) \<and> ToNumber (substr ''--0615'' 2 2) \<le> 12
            \<and> 1 \<le> ToNumber (substr ''--0615'' 4 2) \<and> ToNumber (substr ''--0615'' 4 2) \<le> 31"
    by code_simp
  have b: "\<not> startsWith ''1990-06-15'' ''--'' \<and> dayjs ''1990-06-15'' = Date 1990 5 15"
    by code_simp
  from C3_iterations[OF refl, where ty = 2024 and tm = 5 and td = 1 and s = "''--0615''"] a
    C3_iterations[OF refl, where ty = 2024 and tm = 5 and td = 1 and s = "''1990-06-15''"
      and y = 1990 and m = 5 and d = 15] b
  show ?thesis by blast
qed

text \<open>
  C4, as stated, fails. The claim: a record whose \<open>BDAY\<close> value is malformed is excluded
  from the output. The record with \<open>FN:Ann\<close> and \<open>BDAY:1990\<close> is in the output, with the
  Invalid Date as its next birthday.
\<close>

theorem C4_counterexample:
  "map fullName (fetchContacts (Date 2024 5 1) (Inr [[''FN:Ann'' @ [CHR 0x0A] @ ''BDAY:1990'']])) = [''Ann'']
   \<and> map nextBirthday (fetchContacts (Date 2024 5 1) (Inr [[''FN:Ann'' @ [CHR 0x0A] @ ''BDAY:1990'']])) = [InvalidDate]"
  by code_simp

text \<open>
  C4 (amended). A record whose text does not contain \<open>BDAY\<close> contributes nothing to
  the output. A record whose text contains \<open>BDAY\<close> contributes exactly one contact,
  whether or not its value matches the birthday pattern, and the records before and
  after it are processed as without it. When the pattern does not match, that contact
  has the empty birthday text and the Invalid Date as its next birthday.
\<close>

theorem C4_extractor:
  "(\<not> str_includes r ''BDAY''
      \<longrightarrow> fetchContacts today (Inr (bs1 @ (xs @ r # ys) # bs2))
          = fetchContacts today (Inr (bs1 @ (xs @ ys) # bs2)))
   \<and> (str_includes r ''BDAY''
      \<longrightarrow> fetchContacts today (Inr (bs1 @ (xs @ r # ys) # bs2))
          = fetchContacts today (Inr (bs1 @ [xs])) @ toContact today r
            # fetchContacts today (Inr (ys # bs2)))
   \<and> (bdayRegex r = None
      \<longrightarrow> birthday (toContact today r) = [] \<and> nextBirthday (toContact today r) = InvalidDate)"
proof (intro conjI impI)
  assume "\<not> str_includes r ''BDAY''"
  then show "fetchContacts today (Inr (bs1 @ (xs @ r # ys) # bs2))
          = fetchContacts today (Inr (bs1 @ (xs @ ys) # bs2))"
    by (simp add: fetchContacts_def contactsOf_def)
next
  assume "str_includes r ''BDAY''"
  then show "fetchContacts today (Inr (bs1 @ (xs @ r # ys) # bs2))
          = fetchContacts today (Inr (bs1 @ [xs])) @ toContact today r
            # fetchContacts today (Inr (ys # bs2))"
    by (simp add: fetchContacts_split contactsOf_def)
next
  assume "bdayRegex r = None"
  then show "birthday (toContact today r) = []" "nextBirthday (toContact today r) = InvalidDate"
    by (simp_all add: toContact_fields birthdayText_def birthdayDate_empty advance_invalid)
qed

text \<open>
  C4 (amended) at an address book of three records whose middle record is \<open>FN:Bob\<close>
  (no birthday field) or \<open>BDAY:1990\<close> (malformed value), with today = 2024-06-01.
\<close>

theorem C4_extractor_witness:
  "fetchContacts (Date 2024 5 1) (Inr [[''BDAY:1990-06-15'', ''FN:Bob'', ''BDAY:--0615'']])
     = fetchContacts (Date 2024 5 1) (Inr [[''BDAY:1990-06-15'', ''BDAY:--0615'']])
   \<and> fetchContacts (Date 2024 5 1) (Inr [[''BDAY:1990-06-15'', ''BDAY:1990'', ''BDAY:--0615'']])
     = fetchContacts (Date 2024 5 1) (Inr [[''BDAY:1990-06-15'']])
       @ toContact (Date 2024 5 1) ''BDAY:1990''
       # fetchContacts (Date 2024 5 1) (Inr [[''BDAY:--0615'']])
   \<and> birthday (toContact (Date 2024 5 1) ''BDAY:1990'') = []
   \<and> nextBirthday (toContact (Date 2024 5 1) ''BDAY:1990'') = InvalidDate"
proof -
  have a: "\<not> str_includes ''FN:Bob'' ''BDAY''" by code_simp
  have b: "str_includes ''BDAY:1990'' ''BDAY''" by code_simp
  have c: "bdayRegex ''BDAY:1990'' = None" by code_simp
  note i = C4_extractor[where today = "Date 2024 5 1" and ?bs1.0 = "[]" and xs = "[''BDAY:1990-06-15'']"
      and ys = "[''BDAY:--0615'']" and ?bs2.0 = "[]", unfolded append.simps]
  from i[where r = "''FN:Bob''"] a i[where r = "''BDAY:1990''"] b c
  show ?thesis by blast
qed

text \<open>
  C5, as stated, fails. The claim: normalization fails when the month is not in 1 to 12
  or the day is out of range. The value \<open>1990-13-45\<close> is matched by the birthday
  pattern and parsed without any error: month 13 and day 45 roll over to 1991-02-14, and
  with today = 2024-06-01 the occurrence is 2025-02-14.
\<close>

theorem C5_counterexample:
  "bdayRegex ''BDAY:1990-13-45'' = Some ''1990-13-45''
   \<and> birthdayDate (Date 2024 5 1) ''1990-13-45'' = Date 1991 1 14
   \<and> nextBirthday (toContact (Date 2024 5 1) ''BDAY:1990-13-45'') = Date 2025 1 14"
  by code_simp

text \<open>
  C5 (amended). Normalization never fails with an error. When the birthday pattern
  matches the record (eight digits, \<open>--\<close> and four digits, or \<open>dddd-dd-dd\<close>, the digits
  not range-checked), the occurrence is a well-formed calendar day on or after today,
  whatever the month and day digits are (the current year having four digits). When the
  pattern does not match, the birthday text is empty and the occurrence is the Invalid
  Date.
\<close>

theorem C5_normalization_total:
  assumes "today = Date ty tm td" "1000 \<le> ty" "ty \<le> 9999"
  shows "(bdayRegex vCardString = None
          \<longrightarrow> birthday (toContact today vCardString) = []
              \<and> nextBirthday (toContact today vCardString) = InvalidDate)
       \<and> (bdayRegex vCardString \<noteq> None
          \<longrightarrow> validDate (nextBirthday (toContact today vCardString))
              \<and> \<not> isBefore (nextBirthday (toContact today vCardString)) today)"
proof (intro conjI impI)
  assume "bdayRegex vCardString = None"
  then show "birthday (toContact today vCardString) = []"
    and "nextBirthday (toContact today vCardString) = InvalidDate"
    by (simp_all add: toContact_fields birthdayText_def birthdayDate_empty advance_invalid)
next
  assume "bdayRegex vCardString \<noteq> None"
  then obtain s where s: "bdayRegex vCardString = Some s" by blast
  from bdayRegex_value[OF s] obtain v where "bdayValue v = Some s" by blast
  from birthdayDate_matched[OF this assms(2,3), of tm td]
  have "validDate (birthdayDate today (birthdayText (Some s)))"
    unfolding assms(1) using new_Date_valid by auto
  then show "validDate (nextBirthday (toContact today vCardString))"
    by (simp add: toContact_fields s advance_valid)
  show "\<not> isBefore (nextBirthday (toContact today vCardString)) today"
    by (simp add: toContact_fields advance_not_before)
qed

text \<open>
  C5 (amended) at the unmatched value \<open>1990\<close> and at the matched value \<open>19901345\<close>,
  with today = 2024-06-01.
\<close>

theorem C5_normalization_total_witness:
  "birthday (toContact (Date 2024 5 1) ''BDAY:1990'') = []
   \<and> nextBirthday (toContact (Date 2024 5 1) ''BDAY:1990'') = InvalidDate
   \<and> validDate (nextBirthday (toContact (Date 2024 5 1) ''BDAY:19901345''))
   \<and> \<not> isBefore (nextBirthday (toContact (Date 2024 5 1) ''BDAY:19901345'')) (Date 2024 5 1)"
proof -
  have a: "bdayRegex ''BDAY:1990'' = None" by code_simp
  have b: "bdayRegex ''BDAY:19901345'' \<noteq> None" by code_simp
  have y: "(1000::int) \<le> 2024" "(2024::int) \<le> 9999" by simp_all
  from C5_normalization_total[OF refl y, where tm = 5 and td = 1 and vCardString = "''BDAY:1990''"] a
    C5_normalization_total[OF refl y, where tm = 5 and td = 1 and vCardString = "''BDAY:19901345''"] b
  show ?thesis by blast
qed

text \<open>
  C6 (the code departs from the claim). The claim: with a known birth year the age is the
  year of the occurrence minus the birth year. For the birthday \<open>2000-02-29\<close> and today
  = 2024-02-10 the loop ends on 2024-02-28 and \<open>diff\<close> counts 23 whole years, not
  2024 - 2000 = 24.
\<close>

theorem C6_age_feb29:
  "getNextBirthday (Date 2024 1 10) ''2000-02-29'' = \<lparr>nextBirthday = Date 2024 1 28, age = 23\<rparr>"
  by code_simp

text \<open>
  C7, as stated, fails: with today = 2024-06-01 the year-less birthday \<open>--0615\<close> is
  reported with the age 0, a number, not with an unknown age.
\<close>

theorem C7_counterexample:
  "map age (fetchContacts (Date 2024 5 1) (Inr [[''BDAY:--0615'']])) = [0]"
  by code_simp

text \<open>
  C7 (amended). With today = 2024-06-01 the extractor turns \<open>--0615\<close> into the occurrence
  2024-06-15 with age 0, \<open>1990-06-15\<close> into 2024-06-15 with age 34, and \<open>1990-01-01\<close>
  into 2025-01-01 with age 35.
\<close>

theorem C7_scenario:
  "fetchContacts (Date 2024 5 1)
     (Inr [[''BDAY:--0615'', ''BDAY:1990-06-15'', ''BDAY:1990-01-01'']])
   = [\<lparr>nextBirthday = Date 2024 5 15, age = 0, fullName = [], birthday = ''--0615''\<rparr>,
      \<lparr>nextBirthday = Date 2024 5 15, age = 34, fullName = [], birthday = ''1990-06-15''\<rparr>,
      \<lparr>nextBirthday = Date 2025 0 1, age = 35, fullName = [], birthday = ''1990-01-01''\<rparr>]"
  by code_simp

text \<open>
  C8 and C9 are about the document that \<open>ics.createEvents\<close> serializes (its bytes, its
  identifiers, its shape for the empty list). That function is a parameter of
  \<open>getICSString\<close> here, and nothing is proved about them.
\<close>

text \<open>
  C10, as stated, fails. The claim: for a birthday of February 29 with a known birth
  year the computed next occurrence falls on February 28 and never on February 29. For
  the birthday \<open>2024-02-29\<close> and today = 2024-02-29 the loop does not run and the
  occurrence is the birth date itself, February 29.
\<close>

theorem C10_counterexample:
  "dayjs ''2024-02-29'' = Date 2024 1 29
   \<and> nextBirthday (getNextBirthday (Date 2024 1 29) ''2024-02-29'') = Date 2024 1 29"
  by code_simp

text \<open>
  C10 (amended). For a birthday with a birth year that parses to February 29 of year
  \<open>y\<close>, and a today after that day, the loop starts from the birth date, the first added
  year clamps the day to 28 and every later year keeps it: the occurrence is February 28
  of the year of today when that day is not before today, and February 28 of the
  following year otherwise, whether that year is a leap year or not, and the loop body
  has run once for every year from \<open>y\<close> to that year.
\<close>

theorem C10_feb29_stays_feb28:
  assumes "today = Date ty tm td"
    and "\<not> startsWith bdayString ''--''"
    and "dayjs bdayString = Date y 1 29"
    and "isBefore (Date y 1 29) today"
  shows "birthdayDate today bdayString = Date y 1 29
       \<and> nextBirthday (getNextBirthday today bdayString)
           = Date (if isBefore (Date ty 1 28) today then ty + 1 else ty) 1 28
       \<and> int (snd (advance today (birthdayDate today bdayString)))
           = (if isBefore (Date ty 1 28) today then ty + 1 else ty) - y"
proof -
  define r where "r = (if isBefore (Date ty 1 28) today then ty + 1 else ty)"
  have b: "birthdayDate today bdayString = Date y 1 29"
    using assms(2,3) by (simp add: birthdayDate_def)
  have "validDate (Date y 1 29)"
    using birthdayDate_valid[of today bdayString] b by simp
  then have "isLeapYear y"
    by (simp add: validDate_def daysInMonth_def split: if_splits)
  then have "daysInMonth (y + 1) 1 = 28"
    using leap_next by (simp add: daysInMonth_def)
  then have step: "add_year 1 (Date y 1 29) = Date (y + 1) 1 28"
    by simp
  have fits: "\<And>y'. 28 \<le> daysInMonth y' 1"
    by (rule daysInMonth_bounds)
  have first: "fst (advance today (Date y 1 29)) = fst (advance today (Date (y + 1) 1 28))"
    using assms(4) by (simp add: advance_step step del: add_year.simps)
  have rest: "fst (advance today (Date (y + 1) 1 28)) = Date r 1 28"
  proof (cases "y < ty")
    case True
    then have "y + 1 \<le> ty" by simp
    from advance_fixed_day[OF fits this, of tm td] show ?thesis
      by (simp only: assms(1) r_def)
  next
    case False
    with assms(4) have y: "y = ty" and late: "isBefore (Date ty 1 29) (Date ty tm td)"
      by (auto simp: assms(1))
    from late have "isBefore (Date ty 1 28) (Date ty tm td)"
      by auto
    then have "r = ty + 1"
      by (simp add: r_def assms(1))
    moreover have "\<not> isBefore (Date (ty + 1) 1 28) (Date ty tm td)"
      by simp
    ultimately show ?thesis
      by (simp add: y assms(1) advance_stop)
  qed
  have res: "fst (advance today (Date y 1 29)) = Date r 1 28"
    using first rest by simp
  from advance_year[of today y 1 29] res
  have count: "int (snd (advance today (Date y 1 29))) = r - y"
    by auto
  from b res count show ?thesis
    by (simp add: getNextBirthday_next r_def)
qed

text \<open>
  C10 (amended) at the birthday \<open>2000-02-29\<close> with today = 2024-02-10: the occurrence is
  2024-02-28, after 24 runs of the loop body, although 2024 is a leap year and its
  February 29 is not before today.
\<close>

theorem C10_feb29_stays_feb28_witness:
  "nextBirthday (getNextBirthday (Date 2024 1 10) ''2000-02-29'') = Date 2024 1 28
   \<and> int (snd (advance (Date 2024 1 10) (birthdayDate (Date 2024 1 10) ''2000-02-29''))) = 24
   \<and> isLeapYear 2024 \<and> validDate (Date 2024 1 29)
   \<and> \<not> isBefore (Date 2024 1 29) (Date 2024 1 10)"
proof -
  have a: "\<not> startsWith ''2000-02-29'' ''--''" by code_simp
  have b: "dayjs ''2000-02-29'' = Date 2000 1 29" by code_simp
  have c: "isBefore (Date 2000 1 29) (Date 2024 1 10)" by simp
  have d: "isLeapYear 2024" "validDate (Date 2024 1 29)" by code_simp+
  have e: "\<not> isBefore (Date 2024 1 29) (Date 2024 1 10)" by simp
  note t = C10_feb29_stays_feb28[OF refl a b c]
  from t[THEN conjunct2, THEN conjunct1]
  have 1: "nextBirthday (getNextBirthday (Date 2024 1 10) ''2000-02-29'') = Date 2024 1 28"
    by simp
  from t[THEN conjunct2, THEN conjunct2]
  have 2: "int (snd (advance (Date 2024 1 10) (birthdayDate (Date 2024 1 10) ''2000-02-29''))) = 24"
    by simp
  from 1 2 d e show ?thesis by blast
qed

end
